theory Spec2Isabelle
  imports Main "HOL-Library.AList"
begin

section \<open>Python strings\<close>

text \<open>
  A Python \<open>str\<close> is a sequence of Unicode code points, and \<open>len\<close>, indexing and the
  regular expressions of \<open>re\<close> all count code points.  A character is modelled by its code
  point, a string by the list of its code points.  \<open>py\<close> reads an ASCII literal of the
  source.
\<close>

type_synonym pychar = nat
type_synonym pystr = "pychar list"

definition py :: "string \<Rightarrow> pystr" where
  "py s = map of_char s"

text \<open>
  \<open>str.isspace\<close> on one character, which is also what \<open>\s\<close> matches in a \<open>str\<close> pattern
  and what \<open>str.strip()\<close> removes: the characters of bidirectional type WS, B or S, or of
  category Zs.
\<close>

definition is_space :: "pychar \<Rightarrow> bool" where
  "is_space c \<longleftrightarrow>
     (9 \<le> c \<and> c \<le> 13) \<or> (28 \<le> c \<and> c \<le> 32) \<or> c = 133 \<or> c = 160 \<or> c = 5760 \<or>
     (8192 \<le> c \<and> c \<le> 8202) \<or> c = 8232 \<or> c = 8233 \<or> c = 8239 \<or> c = 8287 \<or> c = 12288"

definition py_strip :: "pystr \<Rightarrow> pystr" where
  "py_strip s = rev (dropWhile is_space (rev (dropWhile is_space s)))"

section \<open>The regular expressions of \<open>minify_text\<close>\<close>

text \<open>
  The three patterns of \<open>minify_text\<close> are sequences of greedy repetitions of a character
  class: \<open>[\r\n\t]+\<close>, \<open> {2,}\<close> and \<open>\s*([\{\}\[\]:,])\s*\<close>.  \<open>Atom p lo hi\<close> is the class
  \<open>p\<close> repeated at least \<open>lo\<close> and at most \<open>hi\<close> times (\<open>None\<close>: unbounded).

  \<open>re_match\<close> is the backtracking matcher anchored at the start of its input: every atom
  first takes as many characters as it can and gives them back one at a time while the rest
  of the pattern fails.  It returns the text each atom matched and the input left.
\<close>

datatype atom = Atom "pychar \<Rightarrow> bool" nat "nat option"

fun first_match :: "('a \<Rightarrow> 'b option) \<Rightarrow> 'a list \<Rightarrow> 'b option" where
  "first_match f [] = None"
| "first_match f (x # xs) = (case f x of Some y \<Rightarrow> Some y | None \<Rightarrow> first_match f xs)"

fun re_match :: "atom list \<Rightarrow> pystr \<Rightarrow> (pystr list \<times> pystr) option" where
  "re_match [] s = Some ([], s)"
| "re_match (Atom p lo hi # rest) s =
     (let run = length (takeWhile p s);
          k = (case hi of None \<Rightarrow> run | Some h \<Rightarrow> min h run)
      in first_match
           (\<lambda>j. case re_match rest (drop j s) of
                  None \<Rightarrow> None
                | Some (gs, r) \<Rightarrow> Some (take j s # gs, r))
           (rev [lo..<Suc k]))"

text \<open>
  \<open>re.sub(pattern, repl, s)\<close>: scan from the left; where the pattern matches, emit the
  replacement and go on after the match; elsewhere copy one character.  An empty match
  emits the replacement and copies the next character.
\<close>

function re_sub :: "atom list \<Rightarrow> (pystr list \<Rightarrow> pystr) \<Rightarrow> pystr \<Rightarrow> pystr" where
  "re_sub pat repl s =
     (case re_match pat s of
        Some (gs, r) \<Rightarrow>
          if length r < length s then repl gs @ re_sub pat repl r
          else repl gs @ (case s of [] \<Rightarrow> [] | c # cs \<Rightarrow> c # re_sub pat repl cs)
      | None \<Rightarrow> (case s of [] \<Rightarrow> [] | c # cs \<Rightarrow> c # re_sub pat repl cs))"
  by pat_completeness auto
termination
  by (relation "measure (\<lambda>(pat, repl, s). length s)") auto

declare re_sub.simps [simp del]
declare re_match.simps(2) [simp del]

definition is_newline_tab :: "pychar \<Rightarrow> bool" where
  "is_newline_tab c \<longleftrightarrow> c \<in> set (py [CHR 0x0D, CHR 0x0A, CHR 0x09])"

definition is_punct :: "pychar \<Rightarrow> bool" where
  "is_punct c \<longleftrightarrow> c \<in> set (py ''{}[]:,'')"

definition pat_newlines :: "atom list" where
  "pat_newlines = [Atom is_newline_tab 1 None]"

definition pat_spaces :: "atom list" where
  "pat_spaces = [Atom (\<lambda>c. c = 32) 2 None]"

definition pat_punct :: "atom list" where
  "pat_punct = [Atom is_space 0 None, Atom is_punct 1 (Some 1), Atom is_space 0 None]"

text \<open>The replacement \<open>\1\<close>: the text of the pattern's one group, its second atom.\<close>

definition group1 :: "pystr list \<Rightarrow> pystr" where
  "group1 gs = (case gs of _ # g # _ \<Rightarrow> g | _ \<Rightarrow> [])"

section \<open>\<open>minify_text\<close>\<close>

definition minify_text :: "pystr \<Rightarrow> pystr" where
  "minify_text content =
     (let content = re_sub pat_newlines (\<lambda>_. py '' '') content;
          content = re_sub pat_spaces (\<lambda>_. py '' '') content;
          content = re_sub pat_punct group1 content
      in py_strip content)"

subsection \<open>The four steps as the specification words them\<close>

text \<open>
  Step 1, every maximal run of carriage returns, line feeds and tabs becomes one space;
  step 2, every run of two or more spaces becomes one space; step 3, white space
  immediately before or after one of \<open>{ } [ ] : ,\<close> is removed; step 4, leading and
  trailing white space is trimmed (\<open>py_strip\<close>).  In step 3 the flag says that the nearest
  character before, white space skipped, is one of the six, and \<open>punct_next\<close> that the
  nearest character after is.
\<close>

fun runs_to_space :: "pystr \<Rightarrow> pystr" where
  "runs_to_space (c # d # cs) =
     (if is_newline_tab c \<and> is_newline_tab d then runs_to_space (d # cs)
      else (if is_newline_tab c then 32 else c) # runs_to_space (d # cs))"
| "runs_to_space [c] = [if is_newline_tab c then 32 else c]"
| "runs_to_space [] = []"

fun collapse_spaces :: "pystr \<Rightarrow> pystr" where
  "collapse_spaces (c # d # cs) =
     (if c = 32 \<and> d = 32 then collapse_spaces (d # cs) else c # collapse_spaces (d # cs))"
| "collapse_spaces cs = cs"

definition punct_next :: "pystr \<Rightarrow> bool" where
  "punct_next cs = (case dropWhile is_space cs of [] \<Rightarrow> False | d # _ \<Rightarrow> is_punct d)"

fun strip_around :: "bool \<Rightarrow> pystr \<Rightarrow> pystr" where
  "strip_around b [] = []"
| "strip_around b (c # cs) =
     (if is_space c then (if b \<or> punct_next cs then strip_around b cs else c # strip_around b cs)
      else c # strip_around (is_punct c) cs)"

definition spec_minify_text :: "pystr \<Rightarrow> pystr" where
  "spec_minify_text s = py_strip (strip_around False (collapse_spaces (runs_to_space s)))"

text \<open>No two neighbours of the string stand in the relation \<open>R\<close>.\<close>

fun adj_free :: "(pychar \<Rightarrow> pychar \<Rightarrow> bool) \<Rightarrow> pystr \<Rightarrow> bool" where
  "adj_free R (c # d # cs) = (\<not> R c d \<and> adj_free R (d # cs))"
| "adj_free R cs = True"

abbreviation double_space :: "pychar \<Rightarrow> pychar \<Rightarrow> bool" where
  "double_space a b \<equiv> a = 32 \<and> b = 32"

abbreviation loose :: "pychar \<Rightarrow> pychar \<Rightarrow> bool" where
  "loose a b \<equiv> is_space a \<and> is_punct b \<or> is_punct a \<and> is_space b"

section \<open>JSON values\<close>

text \<open>
  The values \<open>json.loads\<close> returns: \<open>None\<close>, \<open>bool\<close>, \<open>int\<close> (unbounded), \<open>float\<close>, \<open>str\<close>,
  \<open>list\<close> and \<open>dict\<close>.  A \<open>dict\<close> keeps its keys in insertion order, which is the order
  \<open>json.dumps\<close> writes them in, so it is an association list with distinct keys.

  A finite \<open>float\<close> is represented by its \<open>repr\<close>, the shortest decimal text that converts
  back to it; two floats are equal exactly when their \<open>repr\<close>s are, but for \<open>nan\<close>.  The
  conversion \<open>float(text)\<close> itself (rounding a decimal to the nearest binary64) is a
  parameter \<open>F\<close> of the decoder, which maps the text of a number to this representation,
  or to an infinity when the number overflows.
\<close>

datatype pyfloat = Fin pystr | PosInf | NegInf | NaN

datatype json =
    JNull
  | JBool bool
  | JInt int
  | JFloat pyfloat
  | JStr pystr
  | JArr "json list"
  | JObj "(pystr \<times> json) list"

abbreviation (input) QUOTE :: pychar where "QUOTE \<equiv> 34"
abbreviation (input) BACKSLASH :: pychar where "BACKSLASH \<equiv> 92"
abbreviation (input) LBRACE :: pychar where "LBRACE \<equiv> 123"
abbreviation (input) RBRACE :: pychar where "RBRACE \<equiv> 125"
abbreviation (input) LBRACKET :: pychar where "LBRACKET \<equiv> 91"
abbreviation (input) RBRACKET :: pychar where "RBRACKET \<equiv> 93"
abbreviation (input) COMMA :: pychar where "COMMA \<equiv> 44"
abbreviation (input) COLON :: pychar where "COLON \<equiv> 58"
abbreviation (input) MINUS :: pychar where "MINUS \<equiv> 45"

section \<open>\<open>json.loads\<close>\<close>

text \<open>
  The decoder of CPython (\<open>json.decoder\<close>, \<open>json.scanner\<close> and their C accelerator
  \<open>_json\<close>) with the default arguments \<open>minify_json\<close> calls it with.  Every function takes
  the text from the current position on and returns the value and the text left;
  \<open>None\<close> is \<open>JSONDecodeError\<close>, whose message and position are not modelled.
\<close>

definition json_ws :: "pychar \<Rightarrow> bool" where
  "json_ws c \<longleftrightarrow> c = 32 \<or> c = 9 \<or> c = 10 \<or> c = 13"

definition skip_ws :: "pystr \<Rightarrow> pystr" where
  "skip_ws s = dropWhile json_ws s"

subsection \<open>Strings\<close>

definition hex_val :: "pychar \<Rightarrow> nat option" where
  "hex_val c =
     (if 48 \<le> c \<and> c \<le> 57 then Some (c - 48)
      else if 97 \<le> c \<and> c \<le> 102 then Some (c - 87)
      else if 65 \<le> c \<and> c \<le> 70 then Some (c - 55)
      else None)"

text \<open>The four hexadecimal digits after \<open>\u\<close>: their value and the text after them.\<close>

definition decode_uXXXX :: "pystr \<Rightarrow> (nat \<times> pystr) option" where
  "decode_uXXXX s =
     (case s of
        a # b # c # d # r \<Rightarrow>
          (case (hex_val a, hex_val b, hex_val c, hex_val d) of
             (Some x3, Some x2, Some x1, Some x0) \<Rightarrow>
               Some (((x3 * 16 + x2) * 16 + x1) * 16 + x0, r)
           | _ \<Rightarrow> None)
      | _ \<Rightarrow> None)"

definition is_high_surrogate :: "nat \<Rightarrow> bool" where
  "is_high_surrogate u \<longleftrightarrow> 55296 \<le> u \<and> u \<le> 56319"

definition is_low_surrogate :: "nat \<Rightarrow> bool" where
  "is_low_surrogate u \<longleftrightarrow> 56320 \<le> u \<and> u \<le> 57343"

definition join_surrogates :: "nat \<Rightarrow> nat \<Rightarrow> nat" where
  "join_surrogates hi lo = 65536 + ((hi - 55296) * 1024 + (lo - 56320))"

definition backslash_escape :: "pychar \<Rightarrow> pychar option" where
  "backslash_escape c =
     (if c = QUOTE then Some QUOTE
      else if c = BACKSLASH then Some BACKSLASH
      else if c = 47 then Some 47
      else if c = 98 then Some 8
      else if c = 102 then Some 12
      else if c = 110 then Some 10
      else if c = 114 then Some 13
      else if c = 116 then Some 9
      else None)"

text \<open>
  What follows a backslash: one of the eight single-character escapes, or \<open>uXXXX\<close>.  A
  high surrogate that is followed by a second \<open>\uXXXX\<close> escape of a low surrogate is
  joined with it into one character; followed by any other well-formed escape it stands
  alone, and that escape is read again on its own.
\<close>

definition scan_escape :: "pystr \<Rightarrow> (pychar \<times> pystr) option" where
  "scan_escape s =
     (case s of
        [] \<Rightarrow> None
      | esc # r \<Rightarrow>
          if esc \<noteq> 117 then
            (case backslash_escape esc of None \<Rightarrow> None | Some c \<Rightarrow> Some (c, r))
          else
            (case decode_uXXXX r of
               None \<Rightarrow> None
             | Some (uni, r1) \<Rightarrow>
                 if is_high_surrogate uni \<and> take 2 r1 = [BACKSLASH, 117] then
                   (case decode_uXXXX (drop 2 r1) of
                      None \<Rightarrow> None
                    | Some (uni2, r2) \<Rightarrow>
                        if is_low_surrogate uni2 then Some (join_surrogates uni uni2, r2)
                        else Some (uni, r1))
                 else Some (uni, r1)))"

text \<open>
  \<open>scanstring\<close>, from the character after the opening quote, in strict mode: a control
  character below \<open>0x20\<close> is an error, and so is the end of the text.
\<close>

lemma decode_uXXXX_shorter: "decode_uXXXX s = Some (u, r) \<Longrightarrow> length r < length s"
  by (auto simp: decode_uXXXX_def split: list.splits option.splits)

lemma scan_escape_shorter: "scan_escape s = Some (c, r) \<Longrightarrow> length r < length s"
  by (auto simp: scan_escape_def split: list.splits option.splits if_splits
      dest!: decode_uXXXX_shorter)

function scanstring :: "pystr \<Rightarrow> (pystr \<times> pystr) option" where
  "scanstring [] = None"
| "scanstring (c # cs) =
     (if c = QUOTE then Some ([], cs)
      else if c = BACKSLASH then
        (case scan_escape cs of
           None \<Rightarrow> None
         | Some (ch, r) \<Rightarrow>
             (case scanstring r of None \<Rightarrow> None | Some (str, r') \<Rightarrow> Some (ch # str, r')))
      else if c \<le> 31 then None
      else (case scanstring cs of None \<Rightarrow> None | Some (str, r') \<Rightarrow> Some (c # str, r')))"
  by pat_completeness auto
termination
  by (relation "measure length") (auto dest: scan_escape_shorter)

lemma scanstring_shorter: "scanstring s = Some (str, r) \<Longrightarrow> length r < length s"
proof (induction s arbitrary: str r rule: scanstring.induct)
  case 1
  then show ?case by simp
next
  case (2 c cs)
  then show ?case
    by (fastforce split: if_splits option.splits dest: scan_escape_shorter)
qed

subsection \<open>Numbers\<close>

text \<open>
  The number pattern \<open>(-?(?:0|[1-9][0-9]*))(\.[0-9]+)?([eE][-+]?[0-9]+)?\<close>: the texts of its
  three groups and the text left.  A fraction or an exponent that is not complete is
  not part of the number.
\<close>

definition is_digit :: "pychar \<Rightarrow> bool" where
  "is_digit c \<longleftrightarrow> 48 \<le> c \<and> c \<le> 57"

definition match_integer :: "pystr \<Rightarrow> (pystr \<times> pystr) option" where
  "match_integer s =
     (let (sign, s1) = (case s of c # cs \<Rightarrow> if c = MINUS then ([MINUS], cs) else ([], s) | [] \<Rightarrow> ([], s))
      in case s1 of
           [] \<Rightarrow> None
         | d # ds \<Rightarrow>
             if d = 48 then Some (sign @ [d], ds)
             else if 49 \<le> d \<and> d \<le> 57
             then Some (sign @ d # takeWhile is_digit ds, dropWhile is_digit ds)
             else None)"

definition match_frac :: "pystr \<Rightarrow> pystr \<times> pystr" where
  "match_frac s =
     (case s of
        dot # d # ds \<Rightarrow>
          if dot = 46 \<and> is_digit d
          then (dot # d # takeWhile is_digit ds, dropWhile is_digit ds)
          else ([], s)
      | _ \<Rightarrow> ([], s))"

definition match_exp :: "pystr \<Rightarrow> pystr \<times> pystr" where
  "match_exp s =
     (case s of
        [] \<Rightarrow> ([], s)
      | e # s1 \<Rightarrow>
          if e = 101 \<or> e = 69 then
            (let (sign, s2) =
               (case s1 of c # cs \<Rightarrow> if c = MINUS \<or> c = 43 then ([c], cs) else ([], s1)
                | [] \<Rightarrow> ([], s1))
             in if takeWhile is_digit s2 = [] then ([], s)
                else (e # sign @ takeWhile is_digit s2, dropWhile is_digit s2))
          else ([], s))"

definition match_number :: "pystr \<Rightarrow> ((pystr \<times> pystr \<times> pystr) \<times> pystr) option" where
  "match_number s =
     (case match_integer s of
        None \<Rightarrow> None
      | Some (integer, s1) \<Rightarrow>
          (let (frac, s2) = match_frac s1; (ex, s3) = match_exp s2
           in Some ((integer, frac, ex), s3)))"

text \<open>\<open>int(text)\<close> on the integer group, and \<open>int.__repr__\<close>.\<close>

definition digits_val :: "pystr \<Rightarrow> nat" where
  "digits_val ds = foldl (\<lambda>a d. 10 * a + (d - 48)) 0 ds"

definition py_int :: "pystr \<Rightarrow> int" where
  "py_int s = (case s of c # cs \<Rightarrow> if c = MINUS then - int (digits_val cs) else int (digits_val s)
               | [] \<Rightarrow> 0)"

function nat_repr :: "nat \<Rightarrow> pystr" where
  "nat_repr n = (if n < 10 then [48 + n] else nat_repr (n div 10) @ [48 + n mod 10])"
  by pat_completeness auto
termination
  by (relation "measure id") auto

declare nat_repr.simps [simp del]

definition int_repr :: "int \<Rightarrow> pystr" where
  "int_repr i = (if i < 0 then MINUS # nat_repr (nat (- i)) else nat_repr (nat i))"

subsection \<open>Values\<close>

text \<open>
  \<open>scan_atom\<close> is \<open>scan_once\<close> on a text that starts none of a string, an object or an
  array: the literals \<open>null\<close>, \<open>true\<close>, \<open>false\<close>, a number, or one of the constants
  \<open>NaN\<close>, \<open>Infinity\<close>, \<open>-Infinity\<close> that the decoder accepts beyond RFC 8259.  A number with a
  fraction or an exponent is a \<open>float\<close>, any other an \<open>int\<close>.
\<close>

definition starts_with :: "pystr \<Rightarrow> pystr \<Rightarrow> bool" where
  "starts_with s p \<longleftrightarrow> take (length p) s = p"

definition scan_atom :: "(pystr \<Rightarrow> pyfloat) \<Rightarrow> pystr \<Rightarrow> (json \<times> pystr) option" where
  "scan_atom F s =
     (if starts_with s (py ''null'') then Some (JNull, drop 4 s)
      else if starts_with s (py ''true'') then Some (JBool True, drop 4 s)
      else if starts_with s (py ''false'') then Some (JBool False, drop 5 s)
      else
        (case match_number s of
           Some ((integer, frac, ex), r) \<Rightarrow>
             if frac \<noteq> [] \<or> ex \<noteq> [] then Some (JFloat (F (integer @ frac @ ex)), r)
             else Some (JInt (py_int integer), r)
         | None \<Rightarrow>
             if starts_with s (py ''NaN'') then Some (JFloat NaN, drop 3 s)
             else if starts_with s (py ''Infinity'') then Some (JFloat PosInf, drop 8 s)
             else if starts_with s (py ''-Infinity'') then Some (JFloat NegInf, drop 9 s)
             else None))"

lemma skip_ws_length: "length (skip_ws s) \<le> length s"
  by (simp add: skip_ws_def length_dropWhile_le)

lemma match_integer_shorter: "match_integer s = Some (g, r) \<Longrightarrow> length r < length s"
  using length_dropWhile_le [of is_digit "tl s"] length_dropWhile_le [of is_digit "tl (tl s)"]
  by (auto simp: match_integer_def split: list.splits if_splits)

lemma match_frac_length: "match_frac s = (g, r) \<Longrightarrow> length r \<le> length s"
  using length_dropWhile_le [of is_digit "tl (tl s)"]
  by (auto simp: match_frac_def split: list.splits if_splits)

lemma match_exp_length: "match_exp s = (g, r) \<Longrightarrow> length r \<le> length s"
  using length_dropWhile_le [of is_digit "tl s"] length_dropWhile_le [of is_digit "tl (tl s)"]
  by (auto simp: match_exp_def Let_def split: list.splits if_splits)

lemma match_number_shorter: "match_number s = Some (g, r) \<Longrightarrow> length r < length s"
  by (fastforce simp: match_number_def split: option.splits prod.splits
      dest: match_integer_shorter match_frac_length match_exp_length)

lemma starts_with_drop:
  assumes "starts_with s p" and "p \<noteq> []"
  shows "length (drop (length p) s) < length s"
proof -
  from assms(1) have "length (take (length p) s) = length p"
    by (simp add: starts_with_def)
  then have "length p \<le> length s" by simp
  with assms(2) show ?thesis by (cases p) auto
qed

lemma scan_atom_shorter: "scan_atom F s = Some (v, r) \<Longrightarrow> length r < length s"
  using starts_with_drop [of s "py ''null''"] starts_with_drop [of s "py ''true''"]
    starts_with_drop [of s "py ''false''"] starts_with_drop [of s "py ''NaN''"]
    starts_with_drop [of s "py ''Infinity''"] starts_with_drop [of s "py ''-Infinity''"]
  by (auto simp: scan_atom_def py_def split: if_splits option.splits
      dest: match_number_shorter)

text \<open>
  \<open>scan_once\<close> with the loops of \<open>JSONArray\<close> and \<open>JSONObject\<close>.  \<open>parse_array\<close> stands at
  an element, with the values read so far; \<open>parse_object\<close> stands at a key, with the
  items read so far.  Storing an item whose key the \<open>dict\<close> already has replaces the
  value and keeps the key's place (\<open>AList.update\<close>).
\<close>

function scan_once :: "(pystr \<Rightarrow> pyfloat) \<Rightarrow> pystr \<Rightarrow> (json \<times> pystr) option"
  and parse_array :: "(pystr \<Rightarrow> pyfloat) \<Rightarrow> pystr \<Rightarrow> json list \<Rightarrow> (json \<times> pystr) option"
  and parse_object ::
    "(pystr \<Rightarrow> pyfloat) \<Rightarrow> pystr \<Rightarrow> (pystr \<times> json) list \<Rightarrow> (json \<times> pystr) option"
where
  "scan_once F s =
     (case s of
        [] \<Rightarrow> None
      | c # cs \<Rightarrow>
          if c = QUOTE then
            (case scanstring cs of None \<Rightarrow> None | Some (str, r) \<Rightarrow> Some (JStr str, r))
          else if c = LBRACE then
            (case skip_ws cs of
               [] \<Rightarrow> None
             | d # r \<Rightarrow> if d = RBRACE then Some (JObj [], r) else parse_object F (d # r) [])
          else if c = LBRACKET then
            (case skip_ws cs of
               [] \<Rightarrow> None
             | d # r \<Rightarrow> if d = RBRACKET then Some (JArr [], r) else parse_array F (d # r) [])
          else scan_atom F s)"
| "parse_array F s vs =
     (case scan_once F s of
        None \<Rightarrow> None
      | Some (v, r) \<Rightarrow>
          (case skip_ws r of
             [] \<Rightarrow> None
           | d # r1 \<Rightarrow>
               if d = RBRACKET then Some (JArr (vs @ [v]), r1)
               else if d = COMMA then parse_array F (skip_ws r1) (vs @ [v])
               else None))"
| "parse_object F s kvs =
     (case s of
        [] \<Rightarrow> None
      | q # s1 \<Rightarrow>
          if q \<noteq> QUOTE then None
          else
            (case scanstring s1 of
               None \<Rightarrow> None
             | Some (key, r) \<Rightarrow>
                 (case skip_ws r of
                    [] \<Rightarrow> None
                  | col # r1 \<Rightarrow>
                      if col \<noteq> COLON then None
                      else
                        (case scan_once F (skip_ws r1) of
                           None \<Rightarrow> None
                         | Some (v, r2) \<Rightarrow>
                             (case skip_ws r2 of
                                [] \<Rightarrow> None
                              | d # r3 \<Rightarrow>
                                  if d = RBRACE then Some (JObj (AList.update key v kvs), r3)
                                  else if d = COMMA
                                  then parse_object F (skip_ws r3) (AList.update key v kvs)
                                  else None)))))"
  by pat_completeness auto

lemma scan_once_shorter_dom:
  "scan_once_parse_array_parse_object_dom (Inl (F, s)) \<Longrightarrow>
     scan_once F s = Some (v, r) \<Longrightarrow> length r < length s"
  "scan_once_parse_array_parse_object_dom (Inr (Inl (F, s, vs))) \<Longrightarrow>
     parse_array F s vs = Some (v, r) \<Longrightarrow> length r < length s"
  "scan_once_parse_array_parse_object_dom (Inr (Inr (F, s, kvs))) \<Longrightarrow>
     parse_object F s kvs = Some (v, r) \<Longrightarrow> length r < length s"
proof (induct arbitrary: v r and v r and v r rule: scan_once_parse_array_parse_object.pinduct)
  case (1 F s)
  show ?case
  proof (cases s)
    case Nil
    with 1 show ?thesis by (simp add: scan_once.psimps)
  next
    case (Cons c cs)
    note ws = skip_ws_length [of cs]
    from "1.prems" "1.hyps"(1) Cons ws "1.hyps"(2,3) [OF Cons] show ?thesis
      by (auto simp: scan_once.psimps split: if_splits option.splits list.splits
          dest!: scanstring_shorter scan_atom_shorter) fastforce+
  qed
next
  case (2 F s vs)
  from "2.prems" "2.hyps"(1) obtain v1 r0 d r1 where
    a: "scan_once F s = Some (v1, r0)" and b: "skip_ws r0 = d # r1"
    by (auto simp: parse_array.psimps split: option.splits list.splits)
  have l0: "length r0 < length s" using "2.hyps"(2) a by simp
  have l1: "length r1 < length r0" using skip_ws_length [of r0] b by simp
  show ?case
  proof (cases "d = RBRACKET")
    case True
    with "2.prems" "2.hyps"(1) a b l0 l1 show ?thesis
      by (simp add: parse_array.psimps)
  next
    case False
    with "2.prems" "2.hyps"(1) a b have c: "d = COMMA"
      and p: "parse_array F (skip_ws r1) (vs @ [v1]) = Some (v, r)"
      by (auto simp: parse_array.psimps split: if_splits)
    have "length r < length (skip_ws r1)"
      using "2.hyps"(3) a b False c p by fastforce
    with l0 l1 skip_ws_length [of r1] show ?thesis by simp
  qed
next
  case (3 F s kvs)
  from "3.prems" "3.hyps"(1) obtain s1 key r0 r1 v1 r2 d r3 where
    s: "s = QUOTE # s1" and k: "scanstring s1 = Some (key, r0)"
    and c: "skip_ws r0 = COLON # r1" and a: "scan_once F (skip_ws r1) = Some (v1, r2)"
    and b: "skip_ws r2 = d # r3"
    by (auto simp: parse_object.psimps split: option.splits list.splits if_splits)
  have l0: "length r0 < length s1" using scanstring_shorter [OF k] .
  have l1: "length r1 < length r0" using skip_ws_length [of r0] c by simp
  have l2: "length r2 < length (skip_ws r1)"
    using "3.hyps"(2) s k c a by fastforce
  have l3: "length r3 < length r2" using skip_ws_length [of r2] b by simp
  note l = l0 l1 l2 l3 skip_ws_length [of r1] skip_ws_length [of r3]
  show ?case
  proof (cases "d = RBRACE")
    case True
    with "3.prems" "3.hyps"(1) s k c a b l show ?thesis
      by (simp add: parse_object.psimps)
  next
    case False
    with "3.prems" "3.hyps"(1) s k c a b have cm: "d = COMMA"
      and p: "parse_object F (skip_ws r3) (AList.update key v1 kvs) = Some (v, r)"
      by (auto simp: parse_object.psimps split: if_splits)
    have "length r < length (skip_ws r3)"
      using "3.hyps"(3) s k c a b False cm p by fastforce
    with l s show ?thesis by simp
  qed
qed

termination scan_once
proof (relation "measure (\<lambda>x. case x of
           Inl (F, s) \<Rightarrow> 2 * length s
         | Inr (Inl (F, s, vs)) \<Rightarrow> 2 * length s + 1
         | Inr (Inr (F, s, kvs)) \<Rightarrow> 2 * length s + 1)", goal_cases)
  case 1
  show ?case by simp
next
  case (2 F s c cs d r)
  then show ?case using skip_ws_length [of cs] by simp
next
  case (3 F s c cs d r)
  then show ?case using skip_ws_length [of cs] by simp
next
  case (4 F s vs)
  show ?case by simp
next
  case (5 F s vs x v r d r1)
  then show ?case
    using scan_once_shorter_dom(1) [of F s v r] skip_ws_length [of r] skip_ws_length [of r1]
    by simp
next
  case (6 F s kvs q s1 x key r col r1)
  then show ?case
    using scanstring_shorter [of s1 key r] skip_ws_length [of r] skip_ws_length [of r1]
    by simp
next
  case (7 F s kvs q s1 x key r col r1 y v r2 d r3)
  then show ?case
    using scanstring_shorter [of s1 key r] skip_ws_length [of r] skip_ws_length [of r1]
      scan_once_shorter_dom(1) [of F "skip_ws r1" v r2] skip_ws_length [of r2]
      skip_ws_length [of r3]
    by simp
qed

declare scan_once.simps [simp del] parse_array.simps [simp del] parse_object.simps [simp del]
declare scanstring.simps(2) [simp del]


section \<open>\<open>json.dumps\<close>\<close>

text \<open>
  The encoder with \<open>ensure_ascii\<close>, \<open>allow_nan\<close> and no indentation, as \<open>json.dumps\<close> has them
  by default.  \<open>py_encode_basestring_ascii\<close> writes a printable ASCII character other than
  the quote and the backslash as it is, and every other character as an escape, a
  character beyond the basic plane as the escapes of its two surrogates.
\<close>

definition hex_digit :: "nat \<Rightarrow> pychar" where
  "hex_digit n = (if n < 10 then 48 + n else 87 + n)"

definition hex4 :: "nat \<Rightarrow> pystr" where
  "hex4 n =
     [hex_digit (n div 4096 mod 16), hex_digit (n div 256 mod 16),
      hex_digit (n div 16 mod 16), hex_digit (n mod 16)]"

definition escape_char :: "pychar \<Rightarrow> pystr" where
  "escape_char c =
     (if 32 \<le> c \<and> c \<le> 126 \<and> c \<noteq> BACKSLASH \<and> c \<noteq> QUOTE then [c]
      else if c = BACKSLASH then [BACKSLASH, BACKSLASH]
      else if c = QUOTE then [BACKSLASH, QUOTE]
      else if c = 8 then [BACKSLASH, 98]
      else if c = 12 then [BACKSLASH, 102]
      else if c = 10 then [BACKSLASH, 110]
      else if c = 13 then [BACKSLASH, 114]
      else if c = 9 then [BACKSLASH, 116]
      else if 65536 \<le> c then
        (let v = c - 65536
         in [BACKSLASH, 117] @ hex4 (55296 + v div 1024 mod 1024) @
            [BACKSLASH, 117] @ hex4 (56320 + v mod 1024))
      else [BACKSLASH, 117] @ hex4 c)"

definition py_encode_basestring_ascii :: "pystr \<Rightarrow> pystr" where
  "py_encode_basestring_ascii s = [QUOTE] @ concat (map escape_char s) @ [QUOTE]"

definition float_repr :: "pyfloat \<Rightarrow> pystr" where
  "float_repr x =
     (case x of Fin r \<Rightarrow> r | PosInf \<Rightarrow> py ''Infinity'' | NegInf \<Rightarrow> py ''-Infinity''
      | NaN \<Rightarrow> py ''NaN'')"

fun join :: "pystr \<Rightarrow> pystr list \<Rightarrow> pystr" where
  "join sep [] = []"
| "join sep [x] = x"
| "join sep (x # y # ys) = x @ sep @ join sep (y # ys)"

text \<open>\<open>json.dumps(obj, separators=(item_separator, key_separator))\<close>.\<close>

fun py_dumps :: "pystr \<Rightarrow> pystr \<Rightarrow> json \<Rightarrow> pystr" where
  "py_dumps isep ksep JNull = py ''null''"
| "py_dumps isep ksep (JBool b) = (if b then py ''true'' else py ''false'')"
| "py_dumps isep ksep (JInt i) = int_repr i"
| "py_dumps isep ksep (JFloat x) = float_repr x"
| "py_dumps isep ksep (JStr s) = py_encode_basestring_ascii s"
| "py_dumps isep ksep (JArr vs) =
     [LBRACKET] @ join isep (map (py_dumps isep ksep) vs) @ [RBRACKET]"
| "py_dumps isep ksep (JObj kvs) =
     [LBRACE] @
     join isep (map (\<lambda>kv. py_encode_basestring_ascii (fst kv) @ ksep @ py_dumps isep ksep (snd kv)) kvs) @
     [RBRACE]"

text \<open>The call of \<open>minify_json\<close>, and one item of an object in its output.\<close>

abbreviation (input) dumps_min :: "json \<Rightarrow> pystr" where
  "dumps_min \<equiv> py_dumps (py '','') (py '':'')"

abbreviation (input) dumps_item :: "pystr \<times> json \<Rightarrow> pystr" where
  "dumps_item kv \<equiv> py_encode_basestring_ascii (fst kv) @ py '':'' @ dumps_min (snd kv)"

section \<open>\<open>minify_json\<close>\<close>

text \<open>The lines the program prints, by their tag; the details of a message are not modelled.\<close>

datatype msg =
    Warning_Encoding_Detection_Failed pystr
  | Json_Error
  | Error_File_Not_Found pystr
  | Success pystr pystr
  | Critical_Error pystr
  | Processing_Directory pystr


subsection \<open>Well-formed texts and values\<close>





text \<open>What follows a value in the output of \<open>json.dumps\<close>: nothing, or a delimiter.\<close>

definition ok_follow :: "pystr \<Rightarrow> bool" where
  "ok_follow r = (case r of [] \<Rightarrow> True | c # _ \<Rightarrow> c = COMMA \<or> c = RBRACKET \<or> c = RBRACE)"







section \<open>The text minifier: proofs\<close>

lemma first_match_hit:
  "lo \<le> k \<Longrightarrow> f k = Some y \<Longrightarrow> first_match f (rev [lo..<Suc k]) = Some y"
  by simp

lemma first_match_none:
  "(\<And>x. x \<in> set xs \<Longrightarrow> f x = None) \<Longrightarrow> first_match f xs = None"
  by (induction xs) auto

lemma first_match_last:
  assumes "lo \<le> k" and "\<And>j. lo \<le> j \<Longrightarrow> j < k \<Longrightarrow> f j = None"
  shows "first_match f (rev [lo..<Suc k]) = f k"
proof -
  have "first_match f (rev [lo..<k]) = None"
    by (rule first_match_none) (use assms in auto)
  with assms(1) show ?thesis by (simp split: option.splits)
qed

lemma re_match_step:
  "re_match (Atom p lo hi # rest) s =
     first_match
       (\<lambda>j. case re_match rest (drop j s) of
              None \<Rightarrow> None
            | Some (gs, r) \<Rightarrow> Some (take j s # gs, r))
       (rev [lo..<Suc (case hi of None \<Rightarrow> length (takeWhile p s)
                        | Some h \<Rightarrow> min h (length (takeWhile p s)))])"
  by (simp add: re_match.simps(2) Let_def)

lemma take_run: "take (length (takeWhile p s)) s = takeWhile p s"
  by (induction s) auto

lemma drop_run: "drop (length (takeWhile p s)) s = dropWhile p s"
  by (induction s) auto

lemma re_match_run:
  "re_match [Atom p lo None] s =
     (if lo \<le> length (takeWhile p s) then Some ([takeWhile p s], dropWhile p s) else None)"
  by (subst re_match_step) (simp add: first_match_hit take_run drop_run)

lemma space_not_punct: "is_space c \<Longrightarrow> \<not> is_punct c"
  by (auto simp: is_space_def is_punct_def py_def)

lemma re_match_punct_tail:
  "re_match (Atom is_punct 1 (Some 1) # [Atom is_space 0 None]) t =
     (case t of [] \<Rightarrow> None
      | d # r \<Rightarrow> if is_punct d then Some ([[d], takeWhile is_space r], dropWhile is_space r) else None)"
  by (subst re_match_step) (cases t; simp add: re_match_run)

lemma re_match_punct:
  "re_match pat_punct s =
     (case dropWhile is_space s of [] \<Rightarrow> None
      | d # r \<Rightarrow> if is_punct d
               then Some ([takeWhile is_space s, [d], takeWhile is_space r], dropWhile is_space r)
               else None)"
proof -
  let ?run = "length (takeWhile is_space s)"
  let ?f = "\<lambda>j. case re_match (Atom is_punct 1 (Some 1) # [Atom is_space 0 None]) (drop j s) of
                  None \<Rightarrow> None
                | Some (gs, r) \<Rightarrow> Some (take j s # gs, r)"
  have early: "?f j = None" if "j < ?run" for j
  proof -
    from that have "j < length s"
      using length_takeWhile_le [of is_space s] by simp
    then have d: "drop j s = s ! j # drop (Suc j) s"
      by (simp add: Cons_nth_drop_Suc)
    from that have "is_space (s ! j)"
      by (metis nth_mem set_takeWhileD takeWhile_nth)
    then show ?thesis
      unfolding re_match_punct_tail by (subst d) (simp add: space_not_punct)
  qed
  have "re_match pat_punct s = first_match ?f (rev [0..<Suc ?run])"
    unfolding pat_punct_def by (subst re_match_step) simp
  also have "\<dots> = ?f ?run"
    by (rule first_match_last) (use early in auto)
  also have "\<dots> = (case dropWhile is_space s of [] \<Rightarrow> None
      | d # r \<Rightarrow> if is_punct d
               then Some ([takeWhile is_space s, [d], takeWhile is_space r], dropWhile is_space r)
               else None)"
    unfolding re_match_punct_tail drop_run take_run
    by (cases "dropWhile is_space s") (simp_all del: dropWhile_eq_Nil_conv)
  finally show ?thesis .
qed

lemma re_sub_Nil: "re_sub pat_punct group1 [] = []"
  by (subst re_sub.simps) (simp add: re_match_punct)

lemma re_sub_punct_hit:
  assumes "dropWhile is_space s = d # r" and "is_punct d"
  shows "re_sub pat_punct group1 s = d # re_sub pat_punct group1 (dropWhile is_space r)"
proof -
  have "length (dropWhile is_space r) \<le> length r"
    by (rule length_dropWhile_le)
  moreover have "length (d # r) \<le> length s"
    using length_dropWhile_le [of is_space s] assms(1) by simp
  ultimately have "length (dropWhile is_space r) < length s"
    by simp
  then show ?thesis
    by (subst re_sub.simps) (simp add: re_match_punct assms group1_def)
qed

lemma re_match_punct_miss: "\<not> punct_next s \<Longrightarrow> re_match pat_punct s = None"
  unfolding re_match_punct punct_next_def
  by (cases "dropWhile is_space s") (simp_all del: dropWhile_eq_Nil_conv)

lemma re_sub_punct_miss:
  assumes "\<not> punct_next (c # cs)"
  shows "re_sub pat_punct group1 (c # cs) = c # re_sub pat_punct group1 cs"
  by (subst re_sub.simps) (simp add: re_match_punct_miss [OF assms])

lemma strip_around_flag:
  "s = [] \<or> \<not> is_space (hd s) \<Longrightarrow> strip_around b s = strip_around False s"
  by (cases s) auto

lemma punct_next_Cons:
  "punct_next (c # cs) = (if is_space c then punct_next cs else is_punct c)"
  by (simp add: punct_next_def)

lemma strip_around_run:
  "punct_next s \<Longrightarrow> strip_around b s = strip_around b (dropWhile is_space s)"
  by (induction s) (auto simp: punct_next_Cons)

lemma strip_around_True:
  "strip_around True s = strip_around True (dropWhile is_space s)"
  by (induction s) auto

lemma dropWhile_hd: "dropWhile p s = [] \<or> \<not> p (hd (dropWhile p s))"
  by (metis hd_dropWhile)

lemma re_sub_punct_eq: "re_sub pat_punct group1 s = strip_around False s"
proof (induction s rule: length_induct)
  case (1 s)
  show ?case
  proof (cases "punct_next s")
    case True
    then obtain d r where dr: "dropWhile is_space s = d # r" and d: "is_punct d"
      by (auto simp: punct_next_def split: list.splits)
    have len: "length (dropWhile is_space r) < length s"
      using length_dropWhile_le [of is_space s] length_dropWhile_le [of is_space r] dr by simp
    have "strip_around False s = strip_around False (d # r)"
      using strip_around_run [OF True] dr by simp
    also have "\<dots> = d # strip_around True r"
      using d by (auto dest: space_not_punct)
    also have "\<dots> = d # strip_around True (dropWhile is_space r)"
      using strip_around_True [of r] by simp
    also have "\<dots> = d # strip_around False (dropWhile is_space r)"
      using strip_around_flag [OF dropWhile_hd] by simp
    also have "\<dots> = d # re_sub pat_punct group1 (dropWhile is_space r)"
      using 1 len by simp
    finally show ?thesis
      using re_sub_punct_hit [OF dr d] by simp
  next
    case False
    show ?thesis
    proof (cases s)
      case Nil
      then show ?thesis by (simp add: re_sub_Nil)
    next
      case (Cons c cs)
      with False have "strip_around False s = c # strip_around False cs"
        by (auto simp: punct_next_Cons split: if_splits)
      moreover have "re_sub pat_punct group1 s = c # re_sub pat_punct group1 cs"
        using False Cons re_sub_punct_miss by simp
      ultimately show ?thesis using 1 Cons by simp
    qed
  qed
qed


lemma runs_to_space_hit:
  "is_newline_tab c \<Longrightarrow> runs_to_space (c # cs) = 32 # runs_to_space (dropWhile is_newline_tab cs)"
  by (induction cs arbitrary: c) auto

lemma runs_to_space_miss:
  "\<not> is_newline_tab c \<Longrightarrow> runs_to_space (c # cs) = c # runs_to_space cs"
  by (cases cs) auto

lemma re_sub_newlines_eq: "re_sub pat_newlines (\<lambda>_. py '' '') s = runs_to_space s"
proof (induction s rule: length_induct)
  case (1 s)
  show ?case
  proof (cases s)
    case Nil
    then show ?thesis
      by (subst re_sub.simps) (simp add: pat_newlines_def re_match_run)
  next
    case (Cons c cs)
    have len: "length (dropWhile is_newline_tab cs) < length s"
      using length_dropWhile_le [of is_newline_tab cs] Cons by simp
    show ?thesis
    proof (cases "is_newline_tab c")
      case True
      then have "re_sub pat_newlines (\<lambda>_. py '' '') s =
          32 # re_sub pat_newlines (\<lambda>_. py '' '') (dropWhile is_newline_tab cs)"
        using len unfolding Cons
        by (subst re_sub.simps) (simp add: pat_newlines_def re_match_run py_def)
      with True show ?thesis
        using 1 len Cons by (simp add: runs_to_space_hit)
    next
      case False
      then have "re_sub pat_newlines (\<lambda>_. py '' '') s = c # re_sub pat_newlines (\<lambda>_. py '' '') cs"
        unfolding Cons
        by (subst re_sub.simps) (simp add: pat_newlines_def re_match_run)
      with False show ?thesis
        using 1 Cons by (simp add: runs_to_space_miss)
    qed
  qed
qed

lemma collapse_spaces_hit:
  "collapse_spaces (32 # cs) = 32 # collapse_spaces (dropWhile (\<lambda>c. c = 32) cs)"
  by (induction cs) auto

lemma collapse_spaces_miss:
  "\<not> (c = 32 \<and> (\<exists>cs'. cs = 32 # cs')) \<Longrightarrow> collapse_spaces (c # cs) = c # collapse_spaces cs"
  by (cases cs) auto

lemma re_sub_spaces_eq: "re_sub pat_spaces (\<lambda>_. py '' '') s = collapse_spaces s"
proof (induction s rule: length_induct)
  case (1 s)
  show ?case
  proof (cases s)
    case Nil
    then show ?thesis
      by (subst re_sub.simps) (simp add: pat_spaces_def re_match_run)
  next
    case (Cons c cs)
    have len: "length (dropWhile (\<lambda>c. c = 32) cs) < length s"
      using length_dropWhile_le [of "\<lambda>c. c = 32" cs] Cons by simp
    show ?thesis
    proof (cases "c = 32 \<and> (\<exists>cs'. cs = 32 # cs')")
      case True
      then obtain cs' where cs: "cs = 32 # cs'" and c: "c = 32" by auto
      have "re_sub pat_spaces (\<lambda>_. py '' '') s =
          32 # re_sub pat_spaces (\<lambda>_. py '' '') (dropWhile (\<lambda>c. c = 32) cs)"
        using len unfolding Cons cs c
        by (subst re_sub.simps) (simp add: pat_spaces_def re_match_run py_def)
      then show ?thesis
        using 1 len Cons c by (simp add: collapse_spaces_hit)
    next
      case False
      then have "length (takeWhile (\<lambda>c. c = 32) s) < 2"
        unfolding Cons by (cases cs) auto
      then have "re_sub pat_spaces (\<lambda>_. py '' '') s = c # re_sub pat_spaces (\<lambda>_. py '' '') cs"
        unfolding Cons
        by (subst re_sub.simps) (simp add: pat_spaces_def re_match_run)
      with False show ?thesis
        using 1 Cons by (simp add: collapse_spaces_miss)
    qed
  qed
qed

lemma minify_text_spec: "minify_text s = spec_minify_text s"
  by (simp add: minify_text_def spec_minify_text_def re_sub_newlines_eq re_sub_spaces_eq
      re_sub_punct_eq)

lemma adj_free_Cons:
  "adj_free R (c # cs) = ((cs = [] \<or> \<not> R c (hd cs)) \<and> adj_free R cs)"
  by (cases cs) auto

lemma adj_free_append: "adj_free R (xs @ ys) \<Longrightarrow> adj_free R xs \<and> adj_free R ys"
proof (induction xs)
  case Nil
  then show ?case by simp
next
  case (Cons x xs)
  then show ?case by (cases xs) (auto simp: adj_free_Cons)
qed

lemma py_strip_infix: "\<exists>pre post. s = pre @ py_strip s @ post"
proof -
  let ?y = "dropWhile is_space s"
  have "rev ?y = takeWhile is_space (rev ?y) @ dropWhile is_space (rev ?y)"
    by simp
  then have "?y = py_strip s @ rev (takeWhile is_space (rev ?y))"
    unfolding py_strip_def by (metis rev_append rev_rev_ident)
  moreover have "s = takeWhile is_space s @ ?y" by simp
  ultimately show ?thesis by metis
qed

lemma adj_free_strip: "adj_free R s \<Longrightarrow> adj_free R (py_strip s)"
  using py_strip_infix [of s] adj_free_append by metis

lemma set_strip: "set (py_strip s) \<subseteq> set s"
  using py_strip_infix [of s] by (metis Un_upper1 Un_upper2 set_append subset_trans)

lemma set_strip_around: "set (strip_around b s) \<subseteq> set s"
  by (induction s arbitrary: b) auto

lemma set_collapse_spaces: "set (collapse_spaces s) \<subseteq> set s"
  by (induction s rule: collapse_spaces.induct) auto

lemma runs_to_space_clean: "c \<in> set (runs_to_space s) \<Longrightarrow> \<not> is_newline_tab c"
  by (induction s rule: runs_to_space.induct)
     (auto simp: is_newline_tab_def py_def split: if_splits)

lemma runs_to_space_id: "\<forall>c\<in>set s. \<not> is_newline_tab c \<Longrightarrow> runs_to_space s = s"
  by (induction s rule: runs_to_space.induct) auto

lemma collapse_spaces_free: "adj_free double_space (collapse_spaces s)"
proof (induction s rule: collapse_spaces.induct)
  case (1 c d cs)
  then show ?case
    by (cases cs) (auto simp: adj_free_Cons)
qed auto

lemma collapse_spaces_id: "adj_free double_space s \<Longrightarrow> collapse_spaces s = s"
  by (induction s rule: collapse_spaces.induct) auto

lemma strip_around_keep:
  "\<not> b \<Longrightarrow> \<not> punct_next cs \<Longrightarrow>
     strip_around b cs = [] \<and> cs = [] \<or>
     cs \<noteq> [] \<and> strip_around b cs \<noteq> [] \<and> hd (strip_around b cs) = hd cs"
  by (cases cs) (auto simp: punct_next_Cons)

lemma punct_next_hd: "\<not> punct_next cs \<Longrightarrow> cs \<noteq> [] \<Longrightarrow> \<not> is_punct (hd cs)"
  by (cases cs) (auto simp: punct_next_Cons space_not_punct split: if_splits)

lemma strip_around_double: "adj_free double_space s \<Longrightarrow> adj_free double_space (strip_around b s)"
proof (induction s arbitrary: b)
  case Nil
  then show ?case by simp
next
  case (Cons c cs)
  then have cs: "adj_free double_space cs" and hd: "cs = [] \<or> \<not> double_space c (hd cs)"
    by (auto simp: adj_free_Cons)
  have is32: "is_space 32" by (simp add: is_space_def)
  show ?case
  proof (cases "is_space c")
    case False
    then have "c \<noteq> 32" using is32 by auto
    with False show ?thesis
      using Cons.IH [OF cs] by (simp add: adj_free_Cons)
  next
    case True
    show ?thesis
    proof (cases "b \<or> punct_next cs")
      case True
      with \<open>is_space c\<close> show ?thesis using Cons.IH [OF cs] by simp
    next
      case False
      then have "strip_around b (c # cs) = c # strip_around b cs"
        using True by simp
      moreover have "strip_around b cs = [] \<or> \<not> double_space c (hd (strip_around b cs))"
        using strip_around_keep [of b cs] False hd by auto
      ultimately show ?thesis
        using Cons.IH [OF cs] by (simp add: adj_free_Cons)
    qed
  qed
qed

lemma strip_around_tight:
  "adj_free loose (strip_around b s) \<and>
   (b \<longrightarrow> strip_around b s = [] \<or> \<not> is_space (hd (strip_around b s)))"
proof (induction s arbitrary: b)
  case Nil
  then show ?case by simp
next
  case (Cons c cs)
  show ?case
  proof (cases "is_space c")
    case False
    then show ?thesis
      using Cons.IH [of "is_punct c"] by (auto simp: adj_free_Cons)
  next
    case True
    show ?thesis
    proof (cases "b \<or> punct_next cs")
      case True
      with \<open>is_space c\<close> show ?thesis using Cons.IH [of b] by simp
    next
      case False
      then have eq: "strip_around b (c # cs) = c # strip_around b cs"
        using True by simp
      have "strip_around b cs = [] \<or> \<not> loose c (hd (strip_around b cs))"
        using strip_around_keep [of b cs] punct_next_hd [of cs] False True
        by (auto dest: space_not_punct)
      then show ?thesis
        unfolding eq using Cons.IH [of b] False by (simp add: adj_free_Cons)
    qed
  qed
qed

lemma tight_no_punct_next: "adj_free loose (c # cs) \<Longrightarrow> is_space c \<Longrightarrow> \<not> punct_next cs"
  by (induction cs arbitrary: c) (auto simp: punct_next_Cons punct_next_def)

lemma strip_around_id:
  "adj_free loose s \<Longrightarrow> (b \<longrightarrow> s = [] \<or> \<not> is_space (hd s)) \<Longrightarrow> strip_around b s = s"
proof (induction s arbitrary: b)
  case Nil
  then show ?case by simp
next
  case (Cons c cs)
  then have cs: "adj_free loose cs" by (simp add: adj_free_Cons)
  show ?case
  proof (cases "is_space c")
    case True
    with Cons.prems have "\<not> b" by auto
    moreover have "\<not> punct_next cs"
      using tight_no_punct_next [OF Cons.prems(1) True] .
    ultimately show ?thesis
      using True Cons.IH [OF cs, of b] by simp
  next
    case False
    have "is_punct c \<longrightarrow> cs = [] \<or> \<not> is_space (hd cs)"
      using Cons.prems(1) by (auto simp: adj_free_Cons)
    then show ?thesis
      using False Cons.IH [OF cs, of "is_punct c"] by simp
  qed
qed

lemma py_strip_id: "py_strip (py_strip s) = py_strip s"
proof -
  let ?y = "dropWhile is_space s"
  let ?z = "py_strip s"
  have z: "?z = rev (dropWhile is_space (rev ?y))" by (simp add: py_strip_def)
  have "\<exists>post. ?y = ?z @ post"
  proof -
    have "rev ?y = takeWhile is_space (rev ?y) @ dropWhile is_space (rev ?y)" by simp
    then have "?y = ?z @ rev (takeWhile is_space (rev ?y))"
      unfolding z by (metis rev_append rev_rev_ident)
    then show ?thesis ..
  qed
  then obtain post where y: "?y = ?z @ post" ..
  have "dropWhile is_space ?z = ?z"
  proof (cases ?z)
    case Nil
    then show ?thesis by simp
  next
    case (Cons a zs)
    with y have "hd ?y = a" and "?y \<noteq> []" by (metis append_Cons list.sel(1), metis append_Cons list.distinct(1))
    then have "\<not> is_space a" using hd_dropWhile [of is_space s] by auto
    with Cons show ?thesis by simp
  qed
  moreover have "dropWhile is_space (rev ?z) = rev ?z"
    unfolding z by simp
  ultimately show ?thesis
    by (simp add: py_strip_def [of ?z])
qed

lemma spec_minify_text_idem: "spec_minify_text (spec_minify_text s) = spec_minify_text s"
proof -
  let ?a = "runs_to_space s"
  let ?b = "collapse_spaces ?a"
  let ?c = "strip_around False ?b"
  let ?t = "py_strip ?c"
  have "set ?t \<subseteq> set ?a"
    using set_strip [of ?c] set_strip_around [of False ?b] set_collapse_spaces [of ?a] by blast
  then have a: "runs_to_space ?t = ?t"
    using runs_to_space_clean [of _ s] by (intro runs_to_space_id) blast
  have b: "collapse_spaces ?t = ?t"
    by (intro collapse_spaces_id adj_free_strip strip_around_double collapse_spaces_free)
  have c: "strip_around False ?t = ?t"
    by (rule strip_around_id) (use strip_around_tight [of False ?b] in \<open>auto intro: adj_free_strip\<close>)
  show ?thesis
    unfolding spec_minify_text_def a b c by (rule py_strip_id)
qed

subsection \<open>Claims about the text minifier\<close>

text \<open>
  Claim C2.  The Text Minifier is idempotent: for every input string \<open>s\<close>, minifying the
  output of \<open>minify_text\<close> again gives the same string.
\<close>

theorem minify_text_idempotent: "minify_text (minify_text s) = minify_text s"
  by (simp only: minify_text_spec spec_minify_text_idem)

theorem minify_text_idempotent_witness:
  "minify_text (minify_text (py '' a , b  c '')) = minify_text (py '' a , b  c '')"
  by (rule minify_text_idempotent)

text \<open>
  Claim C5.  For every input string the Text Minifier, defined by the three regular
  expression substitutions and \<open>strip\<close> of the source, equals the composition in order of:
  (1) each maximal run of carriage returns, line feeds and tabs replaced by one space,
  (2) each run of two or more spaces collapsed into one space, (3) white space immediately
  before or after one of \<open>{ } [ ] : ,\<close> removed, (4) leading and trailing white space
  trimmed.  On \<open>Hello\n\n\tWorld   {foo}\<close> it returns \<open>Hello World{foo}\<close>.
\<close>

theorem minify_text_steps:
  "minify_text s = py_strip (strip_around False (collapse_spaces (runs_to_space s))) \<and>
   minify_text (py (''Hello'' @ [CHR 0x0A, CHR 0x0A, CHR 0x09] @ ''World   {foo}'')) =
     py ''Hello World{foo}''"
proof
  show "minify_text s = py_strip (strip_around False (collapse_spaces (runs_to_space s)))"
    by (simp only: minify_text_spec spec_minify_text_def)
  show "minify_text (py (''Hello'' @ [CHR 0x0A, CHR 0x0A, CHR 0x09] @ ''World   {foo}'')) =
     py ''Hello World{foo}''"
    by (simp add: minify_text_spec spec_minify_text_def py_def is_newline_tab_def is_space_def
        punct_next_def is_punct_def py_strip_def)
qed

theorem minify_text_steps_witness:
  "minify_text (py ''a : [ b ]'') =
     py_strip (strip_around False (collapse_spaces (runs_to_space (py ''a : [ b ]'')))) \<and>
   minify_text (py (''Hello'' @ [CHR 0x0A, CHR 0x0A, CHR 0x09] @ ''World   {foo}'')) =
     py ''Hello World{foo}''"
  by (rule minify_text_steps)

section \<open>The JSON minifier: proofs\<close>

subsection \<open>Strings: what is written is read back\<close>





lemma hex4_length: "length (hex4 n) = 4"
  by (simp add: hex4_def)












subsection \<open>Numbers: what is written is read back\<close>



























subsection \<open>Arrays and objects: what is written is read back\<close>







lemma ok_follow_simps [simp]:
  "ok_follow []" "ok_follow (COMMA # t)" "ok_follow (RBRACKET # t)" "ok_follow (RBRACE # t)"
  by (simp_all add: ok_follow_def)




lemma dumps_item_hd: "\<exists>t. dumps_item kv = QUOTE # t"
  by (simp add: py_encode_basestring_ascii_def)






subsection \<open>What the decoder returns is well formed\<close>











subsection \<open>The text of a number matches as the same number on its own\<close>























subsection \<open>Claims about the JSON minifier\<close>





end
